theory Spec2Isabelle
  imports Main "HOL-Library.AList" "HOL-Library.Sublist"
begin

section \<open>JavaScript values\<close>

text \<open>
  The query builder and the mapper dispatch on the run-time shape of their arguments
  (\<^verbatim>\<open>'AND' in helpers\<close>, \<^verbatim>\<open>typeof value === 'object'\<close>, \<^verbatim>\<open>value === undefined\<close>),
  so the values are modelled untyped. An object is the list of its own enumerable
  properties in the order \<^verbatim>\<open>Object.entries\<close> yields them; its keys are pairwise distinct.
  Numbers are the integer-valued ones (printed in plain decimal, which JavaScript does
  below \<open>10\<^sup>2\<^sup>1\<close>). Members inherited from a prototype are not modelled.
\<close>

datatype jsval =
    JUndefined
  | JNull
  | JBool bool
  | JNum int
  | JStr string
  | JArr "jsval list"
  | JObj "(string \<times> jsval) list"

type_synonym obj = "(string \<times> jsval) list"

text \<open>What a \<^verbatim>\<open>throw\<close> carries: an \<^verbatim>\<open>Error\<close> with its message, a \<^verbatim>\<open>TypeError\<close>
  raised by the run time (its message is the engine's), or any other thrown value.\<close>

datatype thrown =
    ErrorObj string
  | TypeErrorObj string
  | ThrownVal jsval

subsection \<open>Strings\<close>

fun join :: "string \<Rightarrow> string list \<Rightarrow> string" where
  "join sep [] = []"
| "join sep [x] = x"
| "join sep (x # y # ys) = x @ sep @ join sep (y # ys)"

fun startsWith :: "string \<Rightarrow> string \<Rightarrow> bool" where
  "startsWith s [] = True"
| "startsWith [] (p # ps) = False"
| "startsWith (c # cs) (p # ps) = (c = p \<and> startsWith cs ps)"

fun str_includes :: "string \<Rightarrow> string \<Rightarrow> bool" where
  "str_includes [] p = (p = [])"
| "str_includes (c # cs) p = (startsWith (c # cs) p \<or> str_includes cs p)"

text \<open>\<^verbatim>\<open>s.split('.')\<close>: the pieces between the separators, the empty ones too.\<close>

fun split_on :: "char \<Rightarrow> string \<Rightarrow> string list" where
  "split_on sep [] = [[]]"
| "split_on sep (c # cs) =
     (if c = sep then [] # split_on sep cs
      else (case split_on sep cs of
              [] \<Rightarrow> [[c]]
            | w # ws \<Rightarrow> (c # w) # ws))"

definition quoted :: "string \<Rightarrow> string" where
  "quoted s = [CHR 0x27] @ s @ [CHR 0x27]"

fun dec_nat :: "nat \<Rightarrow> string" where
  "dec_nat n =
     (if n < 10 then [''0123456789'' ! n]
      else dec_nat (n div 10) @ [''0123456789'' ! (n mod 10)])"

declare dec_nat.simps [simp del]

definition dec_int :: "int \<Rightarrow> string" where
  "dec_int i = (if i < 0 then CHR ''-'' # dec_nat (nat (- i)) else dec_nat (nat i))"

subsection \<open>Conversions and property access\<close>

text \<open>\<^verbatim>\<open>String(v)\<close>, which is also what a template literal \<^verbatim>\<open>`${v}`\<close> inserts.\<close>

fun js_to_string :: "jsval \<Rightarrow> string" where
  "js_to_string JUndefined = ''undefined''"
| "js_to_string JNull = ''null''"
| "js_to_string (JBool b) = (if b then ''true'' else ''false'')"
| "js_to_string (JNum n) = dec_int n"
| "js_to_string (JStr s) = s"
| "js_to_string (JArr xs) =
     join '','' (map (\<lambda>x. if x = JUndefined \<or> x = JNull then [] else js_to_string x) xs)"
| "js_to_string (JObj es) = ''[object Object]''"

fun js_truthy :: "jsval \<Rightarrow> bool" where
  "js_truthy JUndefined = False"
| "js_truthy JNull = False"
| "js_truthy (JBool b) = b"
| "js_truthy (JNum n) = (n \<noteq> 0)"
| "js_truthy (JStr s) = (s \<noteq> [])"
| "js_truthy (JArr xs) = True"
| "js_truthy (JObj es) = True"

definition obj_get :: "obj \<Rightarrow> string \<Rightarrow> jsval" where
  "obj_get es k = (case map_of es k of None \<Rightarrow> JUndefined | Some v \<Rightarrow> v)"

definition obj_has :: "obj \<Rightarrow> string \<Rightarrow> bool" where
  "obj_has es k = (map_of es k \<noteq> None)"

text \<open>\<^verbatim>\<open>Object.entries\<close> of an array: its elements under their decimal indices.\<close>

definition array_entries :: "jsval list \<Rightarrow> obj" where
  "array_entries xs = zip (map dec_nat [0..<length xs]) xs"

text \<open>\<^verbatim>\<open>v?.[k]\<close>: the property \<open>k\<close> of \<open>v\<close>, and \<^verbatim>\<open>undefined\<close> when \<open>v\<close> is
  \<^verbatim>\<open>undefined\<close> or \<^verbatim>\<open>null\<close>. A string has its length and its characters.\<close>

fun js_get :: "jsval \<Rightarrow> string \<Rightarrow> jsval" where
  "js_get (JObj es) k = obj_get es k"
| "js_get (JArr xs) k =
     (if k = ''length'' then JNum (int (length xs)) else obj_get (array_entries xs) k)"
| "js_get (JStr s) k =
     (if k = ''length'' then JNum (int (length s))
      else obj_get (array_entries (map (\<lambda>c. JStr [c]) s)) k)"
| "js_get v k = JUndefined"

text \<open>\<^verbatim>\<open>k in v\<close> for an object or an array \<open>v\<close>.\<close>

fun js_in :: "string \<Rightarrow> jsval \<Rightarrow> bool" where
  "js_in k (JObj es) = obj_has es k"
| "js_in k (JArr xs) = (k = ''length'' \<or> obj_has (array_entries xs) k)"
| "js_in k v = False"

text \<open>\<^verbatim>\<open>typeof v === 'object' && v !== null\<close>\<close>

fun is_object :: "jsval \<Rightarrow> bool" where
  "is_object (JObj es) = True"
| "is_object (JArr xs) = True"
| "is_object v = False"

fun is_array :: "jsval \<Rightarrow> bool" where
  "is_array (JArr xs) = True"
| "is_array v = False"

fun elems :: "jsval \<Rightarrow> jsval list" where
  "elems (JArr xs) = xs"
| "elems v = []"

text \<open>Running a list of computations that may throw: the first throw wins.\<close>

fun sequence :: "('e + 'a) list \<Rightarrow> 'e + 'a list" where
  "sequence [] = Inr []"
| "sequence (Inl e # rs) = Inl e"
| "sequence (Inr x # rs) = (case sequence rs of Inl e \<Rightarrow> Inl e | Inr xs \<Rightarrow> Inr (x # xs))"

section \<open>The search query builder\<close>

text \<open>
  \<^verbatim>\<open>const operator = value.operator || dflt;\<close>
  \<^verbatim>\<open>const val = typeof value.value === 'string' ? `'${value.value}'` : value.value;\<close>
  \<^verbatim>\<open>parts.push(`${lhs} ${operator} ${val}`);\<close>
\<close>

definition operator_clause :: "string \<Rightarrow> string \<Rightarrow> jsval \<Rightarrow> string" where
  "operator_clause lhs dflt v =
     (let operator = (if js_truthy (js_get v ''operator'') then js_get v ''operator''
                      else JStr dflt);
          val = (case js_get v ''value'' of
                   JStr s \<Rightarrow> JStr (quoted s)
                 | w \<Rightarrow> w)
      in lhs @ '' '' @ js_to_string operator @ '' '' @ js_to_string val)"

text \<open>\<^verbatim>\<open>typeof value === 'object' && 'value' in value\<close>, for a value that is not \<^verbatim>\<open>null\<close>.\<close>

definition is_condition_value :: "jsval \<Rightarrow> bool" where
  "is_condition_value v = (is_object v \<and> js_in ''value'' v)"

fun is_string :: "jsval \<Rightarrow> bool" where
  "is_string (JStr s) = True"
| "is_string v = False"

text \<open>The clause of a dotted label or relation key: the key is the left-hand side.\<close>

definition nested_parts :: "string \<Rightarrow> jsval \<Rightarrow> string list" where
  "nested_parts key v =
     (if is_condition_value v then [operator_clause key ''='' v]
      else if is_string v then [key @ '' = '' @ quoted (js_to_string v)]
      else [key @ '' = '' @ js_to_string v])"

text \<open>The body of the loop over \<^verbatim>\<open>Object.entries(helpers)\<close>, for a value that is neither
  \<^verbatim>\<open>undefined\<close> nor \<^verbatim>\<open>null\<close>: the strings it pushes onto \<^verbatim>\<open>parts\<close>.\<close>

definition entry_parts :: "string \<Rightarrow> jsval \<Rightarrow> string list" where
  "entry_parts key v =
     (if startsWith key ''#'' then
        (let labelName = drop 1 key in
         if str_includes labelName ''.'' then nested_parts key v
         else if v = JBool True then [''#'' @ labelName]
         else if v = JBool False then [''#!'' @ labelName]
         else if is_condition_value v then [operator_clause (''#'' @ labelName) ''='' v]
         else if is_string v then [''#'' @ labelName @ '' = '' @ quoted (js_to_string v)]
         else [''#'' @ labelName @ '' = '' @ js_to_string v])
      else if startsWith key ''~'' then
        (let relationName = drop 1 key in
         if str_includes relationName ''.'' then nested_parts key v
         else if is_condition_value v then [operator_clause key ''*=*'' v]
         else if is_string v then [key @ '' *=* '' @ quoted (js_to_string v)]
         else [])
      else
        (let path = (if startsWith key ''note.'' then key else ''note.'' @ key) in
         if is_condition_value v then [operator_clause path ''='' v]
         else if is_string v then [path @ '' = '' @ quoted (js_to_string v)]
         else [path @ '' = '' @ js_to_string v]))"

fun conditions_loop :: "obj \<Rightarrow> string list \<Rightarrow> string list" where
  "conditions_loop [] parts = parts"
| "conditions_loop ((key, v) # rest) parts =
     (if v = JUndefined \<or> v = JNull then conditions_loop rest parts
      else conditions_loop rest (parts @ entry_parts key v))"

definition wrap_in_and :: "string \<Rightarrow> string" where
  "wrap_in_and query = (if str_includes query '' OR '' then ''('' @ query @ '')'' else query)"

definition wrap_in_or :: "string \<Rightarrow> string" where
  "wrap_in_or query =
     (if str_includes query '' AND '' \<or> str_includes query '' OR '' then ''('' @ query @ '')''
      else query)"

definition not_error :: thrown where
  "not_error = ErrorObj ''NOT operator requires a query object, not a simple value''"

function buildSearchQuery :: "jsval \<Rightarrow> thrown + string" where
  "buildSearchQuery (JObj es) =
     (if obj_has es ''AND'' \<and> is_array (obj_get es ''AND'') then
        (case sequence (map buildSearchQuery (elems (obj_get es ''AND''))) of
           Inl e \<Rightarrow> Inl e
         | Inr qs \<Rightarrow> Inr (join '' AND '' (map wrap_in_and qs)))
      else if obj_has es ''OR'' \<and> is_array (obj_get es ''OR'') then
        (case sequence (map buildSearchQuery (elems (obj_get es ''OR''))) of
           Inl e \<Rightarrow> Inl e
         | Inr qs \<Rightarrow> Inr (join '' OR '' (map wrap_in_or qs)))
      else if obj_has es ''NOT'' \<and> obj_get es ''NOT'' \<noteq> JUndefined then
        (if is_object (obj_get es ''NOT'') \<and> \<not> js_in ''value'' (obj_get es ''NOT'') then
           (case buildSearchQuery (obj_get es ''NOT'') of
              Inl e \<Rightarrow> Inl e
            | Inr query \<Rightarrow> Inr (''not('' @ query @ '')''))
         else Inl not_error)
      else Inr (join '' AND '' (conditions_loop es [])))"
| "buildSearchQuery (JArr xs) = Inr (join '' AND '' (conditions_loop (array_entries xs) []))"
| "buildSearchQuery JUndefined =
     Inl (TypeErrorObj ''Cannot use 'in' operator to search for 'AND' in undefined'')"
| "buildSearchQuery JNull =
     Inl (TypeErrorObj ''Cannot use 'in' operator to search for 'AND' in null'')"
| "buildSearchQuery (JBool b) =
     Inl (TypeErrorObj (''Cannot use 'in' operator to search for 'AND' in '' @ js_to_string (JBool b)))"
| "buildSearchQuery (JNum n) =
     Inl (TypeErrorObj (''Cannot use 'in' operator to search for 'AND' in '' @ js_to_string (JNum n)))"
| "buildSearchQuery (JStr s) =
     Inl (TypeErrorObj (''Cannot use 'in' operator to search for 'AND' in '' @ s))"
  by pat_completeness auto
termination
proof -
  have lookup: "size v < size (JObj es)" if "map_of es k = Some v" for es k v
    using that by (induction es) (auto split: if_splits)
  have child: "size x < size (JObj es)" if "x \<in> set (elems (obj_get es k))" for x es k
  proof -
    from that obtain xs where g: "map_of es k = Some (JArr xs)" and m: "x \<in> set xs"
      by (cases "map_of es k"; cases "obj_get es k") (auto simp: obj_get_def)
    from m have "size x < size (JArr xs)"
      by (induction xs) auto
    with lookup [OF g] show ?thesis by simp
  qed
  have negated: "size (obj_get es k) < size (JObj es)" if "obj_get es k \<noteq> JUndefined" for es k
    using that by (cases "map_of es k") (auto simp: obj_get_def dest: lookup)
  show ?thesis
    by (relation "measure size") (auto dest!: child negated)
qed

section \<open>The note mapper\<close>

text \<open>A note is an object: \<^verbatim>\<open>noteId\<close>, \<^verbatim>\<open>title\<close>, \<^verbatim>\<open>attributes\<close> and the other
  properties the service returns. The functions of a configuration (extractors,
  transforms, computed fields) are the caller's; each returns a value or throws.\<close>

type_synonym trilium_note = obj

datatype source =
    FromPath string
  | FromFn "trilium_note \<Rightarrow> thrown + jsval"

text \<open>A field mapping: \<^verbatim>\<open>undefined\<close> (the key is optional), a shorthand path, a descriptor
  \<^verbatim>\<open>{from, transform?, default?, required?}\<close> or a descriptor \<^verbatim>\<open>{computed, default?}\<close>.
  A default that is not configured is \<^verbatim>\<open>undefined\<close>.\<close>

datatype field_mapping =
    Unmapped
  | Shorthand string
  | Direct source "(jsval \<Rightarrow> trilium_note \<Rightarrow> thrown + jsval) option" jsval bool
  | Computed "obj \<Rightarrow> trilium_note \<Rightarrow> thrown + jsval" jsval

type_synonym mapping_config = "(string \<times> field_mapping) list"

type_synonym computed_field = "string \<times> (obj \<Rightarrow> trilium_note \<Rightarrow> thrown + jsval) \<times> jsval"

text \<open>\<^verbatim>\<open>attributes.find((attr) => attr.type === ty && attr.name === name)?.value\<close>\<close>

fun find_attribute :: "string \<Rightarrow> string \<Rightarrow> jsval list \<Rightarrow> thrown + jsval" where
  "find_attribute ty name [] = Inr JUndefined"
| "find_attribute ty name (attr # rest) =
     (if attr = JUndefined \<or> attr = JNull then
        Inl (TypeErrorObj (''Cannot read properties of '' @ js_to_string attr @ '' (reading 'type')''))
      else if js_get attr ''type'' = JStr ty \<and> js_get attr ''name'' = JStr name then
        Inr (js_get attr ''value'')
      else find_attribute ty name rest)"

definition note_attribute :: "trilium_note \<Rightarrow> string \<Rightarrow> string \<Rightarrow> thrown + jsval" where
  "note_attribute n ty name =
     (let attributes = obj_get n ''attributes'' in
      if attributes = JUndefined \<or> attributes = JNull then Inr JUndefined
      else if is_array attributes then find_attribute ty name (elems attributes)
      else Inl (TypeErrorObj ''note.attributes?.find is not a function''))"

definition extractValue :: "trilium_note \<Rightarrow> string \<Rightarrow> thrown + jsval" where
  "extractValue n path =
     (if path = [] then Inr JUndefined
      else if startsWith path ''#'' then note_attribute n ''label'' (drop 1 path)
      else if startsWith path ''~'' then note_attribute n ''relation'' (drop 1 path)
      else if startsWith path ''note.'' then
        Inr (foldl js_get (JObj n) (split_on CHR ''.'' (drop 5 path)))
      else Inr JUndefined)"

definition with_default :: "jsval \<Rightarrow> jsval \<Rightarrow> jsval" where
  "with_default v d = (if v = JUndefined \<and> d \<noteq> JUndefined then d else v)"

definition required_error :: "string \<Rightarrow> trilium_note \<Rightarrow> thrown" where
  "required_error key n =
     ErrorObj (''Required field '' @ quoted key @ '' missing from note ''
               @ js_to_string (obj_get n ''noteId'')
               @ '' ('' @ js_to_string (obj_get n ''title'') @ '')'')"

text \<open>One regular field: extract, transform, default, validate.\<close>

definition direct_value ::
  "string \<Rightarrow> source \<Rightarrow> (jsval \<Rightarrow> trilium_note \<Rightarrow> thrown + jsval) option \<Rightarrow> jsval \<Rightarrow> bool
     \<Rightarrow> trilium_note \<Rightarrow> thrown + jsval" where
  "direct_value key src transform d required n =
     (case (case src of FromFn f \<Rightarrow> f n | FromPath path \<Rightarrow> extractValue n path) of
        Inl e \<Rightarrow> Inl e
      | Inr raw \<Rightarrow>
          (case (case transform of None \<Rightarrow> Inr raw | Some t \<Rightarrow> t raw n) of
             Inl e \<Rightarrow> Inl e
           | Inr v \<Rightarrow>
               (if required \<and> with_default v d = JUndefined then Inl (required_error key n)
                else Inr (with_default v d))))"

text \<open>The first loop of \<^verbatim>\<open>mapSingle\<close>: a falsy mapping is skipped, a computed one is set
  aside, any other is resolved and stored.\<close>

fun first_pass ::
  "mapping_config \<Rightarrow> trilium_note \<Rightarrow> obj \<Rightarrow> computed_field list
     \<Rightarrow> thrown + (obj \<times> computed_field list)" where
  "first_pass [] n result computedFields = Inr (result, computedFields)"
| "first_pass ((key, Unmapped) # rest) n result computedFields =
     first_pass rest n result computedFields"
| "first_pass ((key, Computed c d) # rest) n result computedFields =
     first_pass rest n result (computedFields @ [(key, c, d)])"
| "first_pass ((key, Shorthand path) # rest) n result computedFields =
     (if path = [] then first_pass rest n result computedFields
      else (case direct_value key (FromPath path) None JUndefined False n of
              Inl e \<Rightarrow> Inl e
            | Inr v \<Rightarrow> first_pass rest n (AList.update key v result) computedFields))"
| "first_pass ((key, Direct src transform d required) # rest) n result computedFields =
     (case direct_value key src transform d required n of
        Inl e \<Rightarrow> Inl e
      | Inr v \<Rightarrow> first_pass rest n (AList.update key v result) computedFields)"

fun second_pass :: "computed_field list \<Rightarrow> trilium_note \<Rightarrow> obj \<Rightarrow> thrown + obj" where
  "second_pass [] n result = Inr result"
| "second_pass ((key, c, d) # rest) n result =
     (case c result n of
        Inl e \<Rightarrow> Inl e
      | Inr v \<Rightarrow> second_pass rest n (AList.update key (with_default v d) result))"

definition mapSingle :: "mapping_config \<Rightarrow> trilium_note \<Rightarrow> thrown + jsval" where
  "mapSingle config n =
     (case first_pass config n [] [] of
        Inl e \<Rightarrow> Inl e
      | Inr (result, computedFields) \<Rightarrow>
          (case second_pass computedFields n result of
             Inl e \<Rightarrow> Inl e
           | Inr result' \<Rightarrow> Inr (JObj result')))"

text \<open>The two kinds of configured fields, each in declaration order: the regular
  entries, which the first loop resolves or skips, and the computed ones.\<close>

fun is_computed :: "field_mapping \<Rightarrow> bool" where
  "is_computed (Computed c d) = True"
| "is_computed m = False"

definition regular_fields :: "mapping_config \<Rightarrow> mapping_config" where
  "regular_fields config = filter (\<lambda>(key, m). \<not> is_computed m) config"

fun computed_fields :: "mapping_config \<Rightarrow> computed_field list" where
  "computed_fields [] = []"
| "computed_fields ((key, Computed c d) # rest) = (key, c, d) # computed_fields rest"
| "computed_fields ((key, m) # rest) = computed_fields rest"

datatype note_or_notes =
    OneNote trilium_note
  | NoteArray "trilium_note list"

definition mapper_map :: "mapping_config \<Rightarrow> note_or_notes \<Rightarrow> thrown + jsval" where
  "mapper_map config noteOrNotes =
     (case noteOrNotes of
        NoteArray notes \<Rightarrow>
          (case sequence (map (mapSingle config) notes) of
             Inl e \<Rightarrow> Inl e
           | Inr rs \<Rightarrow> Inr (JArr rs))
      | OneNote n \<Rightarrow> mapSingle config n)"

text \<open>\<^verbatim>\<open>Object.assign({}, ...configs)\<close>: every property of every source is assigned to
  the target, source after source, each in the order of its properties.\<close>

definition assign_source :: "mapping_config \<Rightarrow> mapping_config \<Rightarrow> mapping_config" where
  "assign_source target src = foldl (\<lambda>t (key, m). AList.update key m t) target src"

definition merge :: "mapping_config list \<Rightarrow> mapping_config" where
  "merge configs = foldl assign_source [] configs"

section \<open>Search and map\<close>

record mapping_failure =
  noteId :: jsval
  noteTitle :: jsval
  reason :: string
  failed_note :: trilium_note

record search_and_map_result =
  mapped_data :: "jsval list"
  failures :: "mapping_failure list"

text \<open>\<^verbatim>\<open>v ?? d\<close>\<close>

definition nullish_or :: "jsval \<Rightarrow> jsval \<Rightarrow> jsval" where
  "nullish_or v d = (if v = JUndefined \<or> v = JNull then d else v)"

definition failure_of :: "trilium_note \<Rightarrow> string \<Rightarrow> mapping_failure" where
  "failure_of n r =
     \<lparr>noteId = nullish_or (obj_get n ''noteId'') (JStr ''unknown''),
      noteTitle = nullish_or (obj_get n ''title'') (JStr ''Untitled''),
      reason = r,
      failed_note = n\<rparr>"

text \<open>\<^verbatim>\<open>err instanceof Error ? err.message : String(err)\<close>\<close>

fun error_reason :: "thrown \<Rightarrow> string" where
  "error_reason (ErrorObj m) = m"
| "error_reason (TypeErrorObj m) = m"
| "error_reason (ThrownVal v) = js_to_string v"

text \<open>\<^verbatim>\<open>const [mapped] = arr\<close>\<close>

definition first_element :: "jsval \<Rightarrow> jsval" where
  "first_element arr = (case elems arr of [] \<Rightarrow> JUndefined | m # ms \<Rightarrow> m)"

text \<open>The loop over \<^verbatim>\<open>data.results\<close>, with its two accumulators.\<close>

fun map_results ::
  "mapping_config \<Rightarrow> trilium_note list \<Rightarrow> jsval list \<Rightarrow> mapping_failure list
     \<Rightarrow> search_and_map_result" where
  "map_results config [] mappedData fails = \<lparr>mapped_data = mappedData, failures = fails\<rparr>"
| "map_results config (n # rest) mappedData fails =
     (case mapper_map config (NoteArray [n]) of
        Inr arr \<Rightarrow>
          (if first_element arr \<noteq> JUndefined then
             map_results config rest (mappedData @ [first_element arr]) fails
           else
             map_results config rest mappedData
               (fails @ [failure_of n ''Mapping returned undefined'']))
      | Inl err \<Rightarrow>
          map_results config rest mappedData (fails @ [failure_of n (error_reason err)]))"

text \<open>The standard fields. \<^verbatim>\<open>transforms.date\<close> parses with the run time's \<^verbatim>\<open>Date\<close>; it is
  a parameter here.\<close>

definition StandardNoteMapping ::
  "(jsval \<Rightarrow> trilium_note \<Rightarrow> thrown + jsval) \<Rightarrow> mapping_config" where
  "StandardNoteMapping date =
     [(''id'', Direct (FromPath ''note.noteId'') None JUndefined True),
      (''title'', Direct (FromPath ''note.title'') None JUndefined True),
      (''dateCreatedUtc'', Direct (FromPath ''note.utcDateCreated'') (Some date) JUndefined True),
      (''dateLastModifiedUtc'',
         Direct (FromPath ''note.utcDateModified'') (Some date) JUndefined True)]"

text \<open>\<^verbatim>\<open>searchAndMap\<close> once the transport has answered with \<^verbatim>\<open>data.results\<close>.\<close>

definition searchAndMap ::
  "(jsval \<Rightarrow> trilium_note \<Rightarrow> thrown + jsval) \<Rightarrow> mapping_config \<Rightarrow> trilium_note list
     \<Rightarrow> search_and_map_result" where
  "searchAndMap date mapping results =
     map_results (merge [StandardNoteMapping date, mapping]) results [] []"

section \<open>Example inputs\<close>

definition note_first :: trilium_note where
  "note_first =
     [(''noteId'', JStr ''n1''), (''title'', JStr ''First''),
      (''utcDateCreated'', JStr ''2024-01-01 12:00:00.000Z''),
      (''utcDateModified'', JStr ''2024-01-02 12:00:00.000Z''),
      (''attributes'',
         JArr [JObj [(''type'', JStr ''label''), (''name'', JStr ''slug''),
                     (''value'', JStr ''first-post'')]])]"

definition note_second :: trilium_note where
  "note_second =
     [(''noteId'', JStr ''n2''), (''title'', JStr ''Second''),
      (''utcDateCreated'', JStr ''2024-02-01 12:00:00.000Z''),
      (''utcDateModified'', JStr ''2024-02-02 12:00:00.000Z''),
      (''attributes'', JArr [])]"

text \<open>A stand-in for \<^verbatim>\<open>transforms.date\<close>: it keeps the text of the date.\<close>

definition date_text :: "jsval \<Rightarrow> trilium_note \<Rightarrow> thrown + jsval" where
  "date_text v n = Inr (if v = JUndefined \<or> v = JNull \<or> v = JStr [] then JUndefined else v)"

definition slug_only :: mapping_config where
  "slug_only = [(''slug'', Direct (FromPath ''#slug'') None JUndefined True)]"

definition title_config :: mapping_config where
  "title_config = [(''title'', Shorthand ''note.title'')]"

definition base_config :: mapping_config where
  "base_config = [(''id'', Shorthand ''note.noteId''), (''title'', Shorthand ''note.noteId'')]"

definition override_config :: mapping_config where
  "override_config =
     [(''title'', Direct (FromPath ''note.title'') None (JStr ''Untitled'') False)]"



definition constant_one :: "obj \<Rightarrow> trilium_note \<Rightarrow> thrown + jsval" where
  "constant_one partial n = Inr (JNum 1)"

definition read_first :: "obj \<Rightarrow> trilium_note \<Rightarrow> thrown + jsval" where
  "read_first partial n = Inr (obj_get partial ''first'')"

definition chained_config :: mapping_config where
  "chained_config =
     [(''first'', Computed constant_one JUndefined),
      (''title'', Shorthand ''note.title''),
      (''second'', Computed read_first JUndefined)]"

definition tagged_blog :: jsval where
  "tagged_blog = JObj [(''#blog'', JBool True)]"

definition either_node :: jsval where
  "either_node = JObj [(''OR'', JArr [JObj [(''#a'', JBool True)], JObj [(''#b'', JNum 5)]])]"

definition both_node :: jsval where
  "both_node = JObj [(''AND'', JArr [JObj [(''#a'', JBool True)], JObj [(''#b'', JBool True)]])]"

definition not_archived :: obj where
  "not_archived = [(''NOT'', JObj [(''#archived'', JBool True)])]"

definition not_bare_value :: obj where
  "not_bare_value = [(''NOT'', JObj [(''value'', JStr ''test'')])]"

section \<open>Running several computations\<close>

lemma sequence_map_Inr: "sequence (map Inr xs) = Inr xs"
  by (induction xs) auto

lemma sequence_InrD: "sequence rs = Inr xs \<Longrightarrow> rs = map Inr xs"
proof (induction rs arbitrary: xs rule: sequence.induct)
  case 1
  then show ?case by simp
next
  case (2 e rs)
  then show ?case by simp
next
  case (3 x rs)
  from "3.prems" obtain ys where ys: "sequence rs = Inr ys" and xs: "xs = x # ys"
    by (cases "sequence rs") auto
  from "3.IH" [OF ys] xs show ?case by simp
qed

lemma sequence_Inr_iff: "sequence rs = Inr xs \<longleftrightarrow> rs = map Inr xs"
  using sequence_InrD sequence_map_Inr by blast

lemma sequence_map_Inl_iff:
  "sequence (map f xs) = Inl e \<longleftrightarrow>
     (\<exists>pre x post. xs = pre @ x # post \<and> f x = Inl e \<and> (\<forall>y\<in>set pre. \<exists>r. f y = Inr r))"
proof (induction xs)
  case Nil
  then show ?case by simp
next
  case (Cons a xs)
  show ?case
  proof (cases "f a")
    case (Inl e')
    show ?thesis
    proof
      assume "sequence (map f (a # xs)) = Inl e"
      with Inl have "f a = Inl e" by simp
      then have "a # xs = [] @ a # xs \<and> f a = Inl e \<and> (\<forall>y\<in>set []. \<exists>r. f y = Inr r)"
        by simp
      then show "\<exists>pre x post. a # xs = pre @ x # post \<and> f x = Inl e
                   \<and> (\<forall>y\<in>set pre. \<exists>r. f y = Inr r)"
        by blast
    next
      assume "\<exists>pre x post. a # xs = pre @ x # post \<and> f x = Inl e
                   \<and> (\<forall>y\<in>set pre. \<exists>r. f y = Inr r)"
      then obtain pre x post where eq: "a # xs = pre @ x # post" and fx: "f x = Inl e"
        and ok: "\<forall>y\<in>set pre. \<exists>r. f y = Inr r"
        by blast
      have "pre = []"
      proof (cases pre)
        case Nil
        then show ?thesis .
      next
        case (Cons b pre')
        with eq have "a \<in> set pre" by simp
        with ok Inl show ?thesis by auto
      qed
      with eq fx have "f a = Inl e" by simp
      then show "sequence (map f (a # xs)) = Inl e" by simp
    qed
  next
    case (Inr r)
    have step: "sequence (map f (a # xs)) = Inl e \<longleftrightarrow> sequence (map f xs) = Inl e"
      using Inr by (cases "sequence (map f xs)") auto
    show ?thesis
    proof
      assume "sequence (map f (a # xs)) = Inl e"
      with step Cons.IH obtain pre x post where "xs = pre @ x # post" "f x = Inl e"
        "\<forall>y\<in>set pre. \<exists>r. f y = Inr r"
        by blast
      with Inr have "a # xs = (a # pre) @ x # post \<and> f x = Inl e
                   \<and> (\<forall>y\<in>set (a # pre). \<exists>r. f y = Inr r)"
        by simp
      then show "\<exists>pre x post. a # xs = pre @ x # post \<and> f x = Inl e
                   \<and> (\<forall>y\<in>set pre. \<exists>r. f y = Inr r)"
        by blast
    next
      assume "\<exists>pre x post. a # xs = pre @ x # post \<and> f x = Inl e
                   \<and> (\<forall>y\<in>set pre. \<exists>r. f y = Inr r)"
      then obtain pre x post where eq: "a # xs = pre @ x # post" and fx: "f x = Inl e"
        and ok: "\<forall>y\<in>set pre. \<exists>r. f y = Inr r"
        by blast
      from eq fx Inr obtain pre' where p: "pre = a # pre'" "xs = pre' @ x # post"
        by (cases pre) auto
      with ok have "\<forall>y\<in>set pre'. \<exists>r. f y = Inr r" by simp
      with p fx Cons.IH have "sequence (map f xs) = Inl e" by blast
      with step show "sequence (map f (a # xs)) = Inl e" by simp
    qed
  qed
qed

lemma mapSingle_object: "mapSingle config n = Inr v \<Longrightarrow> \<exists>result. v = JObj result"
  by (auto simp: mapSingle_def split: sum.splits prod.splits)


section \<open>The batch form of the mapper\<close>

text \<open>
  Claim C8. For every mapper and every array of notes, the batch form \<^verbatim>\<open>map(notes)\<close> is
  the single-note mapping applied element-wise: it returns an array exactly when every note
  maps, and then the array has the length of the input and holds at each index the
  mapping of the note at that index; nothing is dropped, merged or moved. When some note
  does not map, the batch throws what the first such note throws.
\<close>

theorem batch_map_elementwise:
  "(mapper_map config (NoteArray notes) = Inr out \<longleftrightarrow>
      (\<exists>rs. out = JArr rs \<and> length rs = length notes
            \<and> (\<forall>i<length notes. mapSingle config (notes ! i) = Inr (rs ! i))))
   \<and> (mapper_map config (NoteArray notes) = Inl e \<longleftrightarrow>
      (\<exists>pre n post. notes = pre @ n # post \<and> mapSingle config n = Inl e
            \<and> (\<forall>m\<in>set pre. \<exists>r. mapSingle config m = Inr r)))"
proof
  have "mapper_map config (NoteArray notes) = Inr out
          \<longleftrightarrow> (\<exists>rs. out = JArr rs \<and> sequence (map (mapSingle config) notes) = Inr rs)"
    by (cases "sequence (map (mapSingle config) notes)") (auto simp: mapper_map_def)
  also have "\<dots> \<longleftrightarrow> (\<exists>rs. out = JArr rs \<and> map (mapSingle config) notes = map Inr rs)"
    by (simp only: sequence_Inr_iff)
  also have "\<dots> \<longleftrightarrow> (\<exists>rs. out = JArr rs \<and> length rs = length notes
            \<and> (\<forall>i<length notes. mapSingle config (notes ! i) = Inr (rs ! i)))"
    by (auto simp: list_eq_iff_nth_eq)
  finally show "mapper_map config (NoteArray notes) = Inr out \<longleftrightarrow>
      (\<exists>rs. out = JArr rs \<and> length rs = length notes
            \<and> (\<forall>i<length notes. mapSingle config (notes ! i) = Inr (rs ! i)))" .
next
  have "mapper_map config (NoteArray notes) = Inl e
          \<longleftrightarrow> sequence (map (mapSingle config) notes) = Inl e"
    by (cases "sequence (map (mapSingle config) notes)") (auto simp: mapper_map_def)
  then show "mapper_map config (NoteArray notes) = Inl e \<longleftrightarrow>
      (\<exists>pre n post. notes = pre @ n # post \<and> mapSingle config n = Inl e
            \<and> (\<forall>m\<in>set pre. \<exists>r. mapSingle config m = Inr r))"
    by (simp only: sequence_map_Inl_iff)
qed

lemma mapSingle_title_first: "mapSingle title_config note_first = Inr (JObj [(''title'', JStr ''First'')])"
  by code_simp

lemma mapSingle_title_second: "mapSingle title_config note_second = Inr (JObj [(''title'', JStr ''Second'')])"
  by code_simp

theorem batch_map_elementwise_witness:
  "mapper_map title_config (NoteArray [note_first, note_second])
     = Inr (JArr [JObj [(''title'', JStr ''First'')], JObj [(''title'', JStr ''Second'')]])"
proof -
  have "\<exists>rs. JArr [JObj [(''title'', JStr ''First'')], JObj [(''title'', JStr ''Second'')]] = JArr rs
          \<and> length rs = length [note_first, note_second]
          \<and> (\<forall>i<length [note_first, note_second].
                mapSingle title_config ([note_first, note_second] ! i) = Inr (rs ! i))"
    by (simp add: All_less_Suc mapSingle_title_first mapSingle_title_second)
  then show ?thesis
    using batch_map_elementwise [of title_config "[note_first, note_second]"] by blast
qed


section \<open>Search and map: one note after the other\<close>

lemma mapper_map_single:
  "mapper_map config (NoteArray [n]) =
     (case mapSingle config n of Inl e \<Rightarrow> Inl e | Inr v \<Rightarrow> Inr (JArr [v]))"
  by (cases "mapSingle config n") (simp_all add: mapper_map_def)

lemma map_results_Cons:
  "map_results config (n # rest) mappedData fails =
     (case mapSingle config n of
        Inr mapped \<Rightarrow> map_results config rest (mappedData @ [mapped]) fails
      | Inl err \<Rightarrow> map_results config rest mappedData (fails @ [failure_of n (error_reason err)]))"
proof (cases "mapSingle config n")
  case (Inl e)
  then show ?thesis by (simp add: mapper_map_single)
next
  case (Inr v)
  then obtain result where "v = JObj result"
    using mapSingle_object by blast
  with Inr show ?thesis by (simp add: mapper_map_single first_element_def)
qed

lemma map_results_collects:
  "map_results config ns mappedData fs =
     \<lparr>mapped_data = mappedData
        @ concat (map (\<lambda>n. case mapSingle config n of Inr v \<Rightarrow> [v] | Inl e \<Rightarrow> []) ns),
      failures = fs
        @ concat (map (\<lambda>n. case mapSingle config n of
                             Inr v \<Rightarrow> []
                           | Inl e \<Rightarrow> [failure_of n (error_reason e)]) ns)\<rparr>"
proof (induction ns arbitrary: mappedData fs)
  case Nil
  then show ?case by simp
next
  case (Cons n ns)
  show ?case
    by (cases "mapSingle config n")
      (simp_all add: map_results_Cons Cons.IH del: map_results.simps)
qed

text \<open>
  Claim C10. The single-note mapping either throws or returns an object, never
  \<^verbatim>\<open>undefined\<close>. So in \<^verbatim>\<open>searchAndMap\<close> the element taken out of \<^verbatim>\<open>mapper.map([note])\<close> is
  never \<^verbatim>\<open>undefined\<close>, and the loop does what it would do without the branch that records
  the reason \<^verbatim>\<open>Mapping returned undefined\<close>: a note that maps is pushed onto the data, a
  note whose mapping throws becomes a failure.
\<close>

theorem mapSingle_never_undefined:
  "(\<forall>v. mapSingle config n = Inr v \<longrightarrow> (\<exists>result. v = JObj result))
   \<and> (\<forall>arr. mapper_map config (NoteArray [n]) = Inr arr \<longrightarrow> first_element arr \<noteq> JUndefined)
   \<and> map_results config (n # rest) mappedData fails =
       (case mapSingle config n of
          Inr mapped \<Rightarrow> map_results config rest (mappedData @ [mapped]) fails
        | Inl err \<Rightarrow>
            map_results config rest mappedData (fails @ [failure_of n (error_reason err)]))"
proof (intro conjI allI impI)
  fix v
  assume "mapSingle config n = Inr v"
  then show "\<exists>result. v = JObj result" by (rule mapSingle_object)
next
  fix arr
  assume a: "mapper_map config (NoteArray [n]) = Inr arr"
  then obtain v where v: "mapSingle config n = Inr v" and arr: "arr = JArr [v]"
    by (cases "mapSingle config n") (auto simp: mapper_map_single)
  from mapSingle_object [OF v] obtain result where "v = JObj result" ..
  with arr show "first_element arr \<noteq> JUndefined" by (simp add: first_element_def)
next
  show "map_results config (n # rest) mappedData fails =
       (case mapSingle config n of
          Inr mapped \<Rightarrow> map_results config rest (mappedData @ [mapped]) fails
        | Inl err \<Rightarrow>
            map_results config rest mappedData (fails @ [failure_of n (error_reason err)]))"
    by (rule map_results_Cons)
qed

theorem mapSingle_never_undefined_witness:
  "mapper_map title_config (NoteArray [note_first]) = Inr (JArr [JObj [(''title'', JStr ''First'')]])
   \<and> first_element (JArr [JObj [(''title'', JStr ''First'')]]) \<noteq> JUndefined"
proof -
  have e: "mapper_map title_config (NoteArray [note_first])
             = Inr (JArr [JObj [(''title'', JStr ''First'')]])"
    by (simp add: mapper_map_single mapSingle_title_first)
  with mapSingle_never_undefined [of title_config note_first] show ?thesis by blast
qed

text \<open>
  Claim C7. \<^verbatim>\<open>searchAndMap\<close> maps every returned note on its own, with the standard fields
  merged in front of the caller's mapping. It always returns: a note whose mapping throws
  contributes one failure, with the note's id (or \<^verbatim>\<open>unknown\<close>), its title (or
  \<^verbatim>\<open>Untitled\<close>), the message of the error (the thrown value as a string when it is not an
  \<^verbatim>\<open>Error\<close>) and the note itself; a note that maps contributes its object to the data. Both
  lists keep the order of the notes.
\<close>

theorem search_and_map_collects:
  "mapped_data (searchAndMap date mapping results) =
     concat (map (\<lambda>n. case mapSingle (merge [StandardNoteMapping date, mapping]) n of
                         Inr v \<Rightarrow> [v]
                       | Inl e \<Rightarrow> []) results)
   \<and> failures (searchAndMap date mapping results) =
     concat (map (\<lambda>n. case mapSingle (merge [StandardNoteMapping date, mapping]) n of
                         Inr v \<Rightarrow> []
                       | Inl e \<Rightarrow>
                           [\<lparr>noteId = nullish_or (obj_get n ''noteId'') (JStr ''unknown''),
                             noteTitle = nullish_or (obj_get n ''title'') (JStr ''Untitled''),
                             reason = error_reason e,
                             failed_note = n\<rparr>]) results)"
  by (simp add: searchAndMap_def map_results_collects failure_of_def cong: sum.case_cong)

theorem search_and_map_collects_witness:
  "mapped_data (searchAndMap date_text slug_only [note_second, note_first]) =
     [JObj [(''id'', JStr ''n1''), (''title'', JStr ''First''),
            (''dateCreatedUtc'', JStr ''2024-01-01 12:00:00.000Z''),
            (''dateLastModifiedUtc'', JStr ''2024-01-02 12:00:00.000Z''),
            (''slug'', JStr ''first-post'')]]
   \<and> failures (searchAndMap date_text slug_only [note_second, note_first]) =
     [\<lparr>noteId = JStr ''n2'', noteTitle = JStr ''Second'',
       reason = ''Required field '' @ quoted ''slug'' @ '' missing from note n2 (Second)'',
       failed_note = note_second\<rparr>]"
proof -
  have m1: "mapSingle (merge [StandardNoteMapping date_text, slug_only]) note_first =
     Inr (JObj [(''id'', JStr ''n1''), (''title'', JStr ''First''),
            (''dateCreatedUtc'', JStr ''2024-01-01 12:00:00.000Z''),
            (''dateLastModifiedUtc'', JStr ''2024-01-02 12:00:00.000Z''),
            (''slug'', JStr ''first-post'')])"
    by code_simp
  have m2: "mapSingle (merge [StandardNoteMapping date_text, slug_only]) note_second =
     Inl (ErrorObj (''Required field '' @ quoted ''slug'' @ '' missing from note n2 (Second)''))"
    by code_simp
  have i: "obj_get note_second ''noteId'' = JStr ''n2''"
    "obj_get note_second ''title'' = JStr ''Second''"
    by (simp_all add: note_second_def obj_get_def)
  from search_and_map_collects [of date_text slug_only "[note_second, note_first]"]
  show ?thesis
    by (simp add: m1 m2 i nullish_or_def)
qed


section \<open>Merging configurations\<close>

lemma map_of_rev_distinct: "distinct (map fst xs) \<Longrightarrow> map_of (rev xs) = map_of xs"
proof (induction xs)
  case Nil
  then show ?case by simp
next
  case (Cons p xs)
  obtain k v where p: "p = (k, v)" by (cases p)
  from Cons.prems p have notin: "map_of xs k = None"
    by (simp add: map_of_eq_None_iff)
  from Cons have ih: "map_of (rev xs) = map_of xs" by simp
  show ?case
  proof
    fix x
    show "map_of (rev (p # xs)) x = map_of (p # xs) x"
      using p notin ih by (cases "map_of xs x") (auto simp: map_add_def)
  qed
qed

lemma map_of_assign_source:
  "map_of (assign_source target src) = map_of target ++ map_of (rev src)"
  unfolding assign_source_def
proof (induction src arbitrary: target)
  case Nil
  then show ?case by simp
next
  case (Cons p src)
  obtain k v where p: "p = (k, v)" by (cases p)
  show ?case
    by (auto simp: p Cons.IH update_conv' map_add_def fun_eq_iff split: option.splits)
qed

lemma distinct_assign_source:
  "distinct (map fst target) \<Longrightarrow> distinct (map fst (assign_source target src))"
  unfolding assign_source_def
proof (induction src arbitrary: target)
  case Nil
  then show ?case by simp
next
  case (Cons p src)
  obtain k v where p: "p = (k, v)" by (cases p)
  from Cons.prems have "distinct (map fst (AList.update k v target))"
    by (rule distinct_update)
  from Cons.IH [OF this] show ?case by (simp add: p)
qed

lemma distinct_assign_all:
  "distinct (map fst target) \<Longrightarrow> distinct (map fst (foldl assign_source target configs))"
  by (induction configs arbitrary: target) (simp_all add: distinct_assign_source)

lemma assign_all_absent:
  "\<forall>c\<in>set configs. key \<notin> fst ` set c
     \<Longrightarrow> map_of (foldl assign_source target configs) key = map_of target key"
proof (induction configs arbitrary: target)
  case Nil
  then show ?case by simp
next
  case (Cons c configs)
  from Cons.prems have "map_of (rev c) key = None"
    by (simp add: map_of_eq_None_iff)
  then have "(map_of target ++ map_of (rev c)) key = map_of target key"
    by (simp add: map_add_def)
  with Cons show ?case by (simp add: map_of_assign_source)
qed

text \<open>
  Claim C9. \<^verbatim>\<open>TriliumMapper.merge\<close> is the shallow overwrite union of its configurations,
  left to right, by field key. The configurations are objects, so each has pairwise
  distinct keys, and so has the result. A key that occurs in some configuration is mapped
  in the result to the whole field mapping that the last such configuration gives it:
  nothing of an earlier mapping for the key survives. A key of one configuration only
  keeps its mapping, and a key of no configuration is absent.
\<close>

theorem merge_last_wins:
  assumes "\<forall>c\<in>set configs. distinct (map fst c)"
  shows "distinct (map fst (merge configs))
    \<and> (\<forall>pre c post key.
          configs = pre @ c # post \<and> key \<in> fst ` set c \<and> (\<forall>d\<in>set post. key \<notin> fst ` set d)
            \<longrightarrow> map_of (merge configs) key = map_of c key)
    \<and> (\<forall>key. (\<forall>c\<in>set configs. key \<notin> fst ` set c) \<longrightarrow> map_of (merge configs) key = None)"
proof (intro conjI allI impI)
  show "distinct (map fst (merge configs))"
    using distinct_assign_all [of "[]" configs] by (simp add: merge_def)
next
  fix pre c post key
  assume a: "configs = pre @ c # post \<and> key \<in> fst ` set c
               \<and> (\<forall>d\<in>set post. key \<notin> fst ` set d)"
  then have split: "configs = pre @ c # post" and inc: "key \<in> fst ` set c"
    and later: "\<forall>d\<in>set post. key \<notin> fst ` set d"
    by blast+
  from split assms have dc: "distinct (map fst c)" by simp
  from inc obtain m where m: "map_of c key = Some m"
    by (cases "map_of c key") (auto simp: map_of_eq_None_iff)
  have "map_of (merge configs) key
          = map_of (assign_source (foldl assign_source [] pre) c) key"
    using assign_all_absent [OF later] by (simp add: merge_def split)
  also have "\<dots> = (map_of (foldl assign_source [] pre) ++ map_of (rev c)) key"
    by (simp add: map_of_assign_source)
  also have "\<dots> = map_of c key"
    using m by (simp add: map_of_rev_distinct [OF dc])
  finally show "map_of (merge configs) key = map_of c key" .
next
  fix key
  assume "\<forall>c\<in>set configs. key \<notin> fst ` set c"
  from assign_all_absent [OF this, of "[]"]
  show "map_of (merge configs) key = None"
    by (simp add: merge_def)
qed

theorem merge_last_wins_witness:
  "distinct (map fst (merge [base_config, override_config]))
   \<and> map_of (merge [base_config, override_config]) ''title''
       = Some (Direct (FromPath ''note.title'') None (JStr ''Untitled'') False)
   \<and> map_of (merge [base_config, override_config]) ''id'' = Some (Shorthand ''note.noteId'')
   \<and> map_of (merge [base_config, override_config]) ''slug'' = None"
proof -
  have d: "\<forall>c\<in>set [base_config, override_config]. distinct (map fst c)"
    by (simp add: base_config_def override_config_def)
  note t = merge_last_wins [OF d]
  have title: "[base_config, override_config] = [base_config] @ override_config # []
      \<and> ''title'' \<in> fst ` set override_config
      \<and> (\<forall>d\<in>set []. ''title'' \<notin> fst ` set d)"
    by (simp add: override_config_def)
  have ident: "[base_config, override_config] = [] @ base_config # [override_config]
      \<and> ''id'' \<in> fst ` set base_config
      \<and> (\<forall>d\<in>set [override_config]. ''id'' \<notin> fst ` set d)"
    by (simp add: base_config_def override_config_def)
  have slug: "\<forall>c\<in>set [base_config, override_config]. ''slug'' \<notin> fst ` set c"
    by (simp add: base_config_def override_config_def)
  from t title have "map_of (merge [base_config, override_config]) ''title''
      = map_of override_config ''title''"
    by blast
  moreover from t ident have "map_of (merge [base_config, override_config]) ''id''
      = map_of base_config ''id''"
    by blast
  moreover from t slug have "map_of (merge [base_config, override_config]) ''slug'' = None"
    by blast
  moreover from t have "distinct (map fst (merge [base_config, override_config]))"
    by blast
  ultimately show ?thesis
    by (simp add: base_config_def override_config_def)
qed


section \<open>The query builder: combinators\<close>

lemma startsWith_iff: "startsWith s p \<longleftrightarrow> (\<exists>t. s = p @ t)"
  by (induction s p rule: startsWith.induct) auto

lemma str_includes_iff: "str_includes s p \<longleftrightarrow> (\<exists>a b. s = a @ p @ b)"
proof (induction s)
  case Nil
  then show ?case by auto
next
  case (Cons c cs)
  show ?case
  proof
    assume "str_includes (c # cs) p"
    then consider "startsWith (c # cs) p" | "str_includes cs p" by auto
    then show "\<exists>a b. c # cs = a @ p @ b"
    proof cases
      case 1
      then obtain t where "c # cs = [] @ p @ t" by (auto simp: startsWith_iff)
      then show ?thesis by blast
    next
      case 2
      with Cons obtain a b where "cs = a @ p @ b" by blast
      then have "c # cs = (c # a) @ p @ b" by simp
      then show ?thesis by blast
    qed
  next
    assume "\<exists>a b. c # cs = a @ p @ b"
    then obtain a b where eq: "c # cs = a @ p @ b" by blast
    show "str_includes (c # cs) p"
    proof (cases a)
      case Nil
      with eq have "startsWith (c # cs) p" by (auto simp: startsWith_iff)
      then show ?thesis by simp
    next
      case (Cons x a')
      with eq have "cs = a' @ p @ b" by simp
      with Cons.IH have "str_includes cs p" by blast
      then show ?thesis by simp
    qed
  qed
qed

lemma str_includes_char: "str_includes s [c] \<longleftrightarrow> c \<in> set s"
  by (induction s) auto

lemma conditions_loop_concat:
  "conditions_loop es parts =
     parts @ concat (map (\<lambda>(key, v). if v = JUndefined \<or> v = JNull then [] else entry_parts key v) es)"
  by (induction es parts rule: conditions_loop.induct) auto

lemma obj_get_array_has: "obj_get es k = JArr cs \<Longrightarrow> obj_has es k"
  by (cases "map_of es k") (auto simp: obj_get_def obj_has_def)

text \<open>
  Claim C5. An AND node is a node with an \<^verbatim>\<open>AND\<close> array; an OR node is a node with an
  \<^verbatim>\<open>OR\<close> array that is not an AND node (the builder looks at \<^verbatim>\<open>AND\<close> first). When the
  children of the node build to the strings \<open>qs\<close>, an AND node builds to these strings
  joined with \<^verbatim>\<open>" AND "\<close>, exactly those that contain \<^verbatim>\<open>" OR "\<close> in parentheses; an OR
  node builds to them joined with \<^verbatim>\<open>" OR "\<close>, exactly those that contain \<^verbatim>\<open>" AND "\<close> or
  \<^verbatim>\<open>" OR "\<close> in parentheses.
\<close>

theorem and_or_nodes:
  "(obj_get es ''AND'' = JArr cs \<and> map buildSearchQuery cs = map Inr qs \<longrightarrow>
      buildSearchQuery (JObj es) =
        Inr (join '' AND ''
              (map (\<lambda>q. if (\<exists>a b. q = a @ '' OR '' @ b) then ''('' @ q @ '')'' else q) qs)))
   \<and> (\<not> is_array (obj_get es ''AND'') \<and> obj_get es ''OR'' = JArr cs
        \<and> map buildSearchQuery cs = map Inr qs \<longrightarrow>
      buildSearchQuery (JObj es) =
        Inr (join '' OR ''
              (map (\<lambda>q. if (\<exists>a b. q = a @ '' AND '' @ b) \<or> (\<exists>a b. q = a @ '' OR '' @ b)
                         then ''('' @ q @ '')'' else q) qs)))"
proof (intro conjI impI)
  assume a: "obj_get es ''AND'' = JArr cs \<and> map buildSearchQuery cs = map Inr qs"
  then have "sequence (map buildSearchQuery cs) = Inr qs"
    by (simp add: sequence_map_Inr)
  moreover have "wrap_in_and = (\<lambda>q. if (\<exists>a b. q = a @ '' OR '' @ b) then ''('' @ q @ '')'' else q)"
    by (rule ext) (simp only: wrap_in_and_def str_includes_iff)
  ultimately show "buildSearchQuery (JObj es) =
        Inr (join '' AND ''
              (map (\<lambda>q. if (\<exists>a b. q = a @ '' OR '' @ b) then ''('' @ q @ '')'' else q) qs))"
    using a obj_get_array_has [of es "''AND''" cs] by simp
next
  assume a: "\<not> is_array (obj_get es ''AND'') \<and> obj_get es ''OR'' = JArr cs
        \<and> map buildSearchQuery cs = map Inr qs"
  then have "sequence (map buildSearchQuery cs) = Inr qs"
    by (simp add: sequence_map_Inr)
  moreover have "wrap_in_or = (\<lambda>q. if (\<exists>a b. q = a @ '' AND '' @ b) \<or> (\<exists>a b. q = a @ '' OR '' @ b)
                         then ''('' @ q @ '')'' else q)"
    by (rule ext) (simp only: wrap_in_or_def str_includes_iff)
  ultimately show "buildSearchQuery (JObj es) =
        Inr (join '' OR ''
              (map (\<lambda>q. if (\<exists>a b. q = a @ '' AND '' @ b) \<or> (\<exists>a b. q = a @ '' OR '' @ b)
                         then ''('' @ q @ '')'' else q) qs))"
    using a obj_get_array_has [of es "''OR''" cs] by simp
qed


theorem and_or_nodes_witness:
  "buildSearchQuery (JObj [(''AND'', JArr [tagged_blog, either_node])])
     = Inr ''#blog AND (#a OR #b = 5)''
   \<and> buildSearchQuery (JObj [(''OR'', JArr [both_node, tagged_blog])])
     = Inr ''(#a AND #b) OR #blog''"
proof -
  have c1: "buildSearchQuery tagged_blog = Inr ''#blog''" by code_simp
  have c2: "buildSearchQuery either_node = Inr ''#a OR #b = 5''" by code_simp
  have c3: "buildSearchQuery both_node = Inr ''#a AND #b''" by code_simp
  have k1: "obj_get [(''AND'', JArr [tagged_blog, either_node])] ''AND''
              = JArr [tagged_blog, either_node]
            \<and> map buildSearchQuery [tagged_blog, either_node]
              = map Inr [''#blog'', ''#a OR #b = 5'']"
    by (simp add: obj_get_def c1 c2)
  have k2: "\<not> is_array (obj_get [(''OR'', JArr [both_node, tagged_blog])] ''AND'')
            \<and> obj_get [(''OR'', JArr [both_node, tagged_blog])] ''OR''
              = JArr [both_node, tagged_blog]
            \<and> map buildSearchQuery [both_node, tagged_blog]
              = map Inr [''#a AND #b'', ''#blog'']"
    by (simp add: obj_get_def c1 c3)
  from k1 and_or_nodes [of "[(''AND'', JArr [tagged_blog, either_node])]"
      "[tagged_blog, either_node]" "[''#blog'', ''#a OR #b = 5'']"]
  have r1: "buildSearchQuery (JObj [(''AND'', JArr [tagged_blog, either_node])]) =
        Inr (join '' AND ''
              (map (\<lambda>q. if (\<exists>a b. q = a @ '' OR '' @ b) then ''('' @ q @ '')'' else q)
                 [''#blog'', ''#a OR #b = 5'']))"
    by blast
  from k2 and_or_nodes [of "[(''OR'', JArr [both_node, tagged_blog])]"
      "[both_node, tagged_blog]" "[''#a AND #b'', ''#blog'']"]
  have r2: "buildSearchQuery (JObj [(''OR'', JArr [both_node, tagged_blog])]) =
        Inr (join '' OR ''
              (map (\<lambda>q. if (\<exists>a b. q = a @ '' AND '' @ b) \<or> (\<exists>a b. q = a @ '' OR '' @ b)
                         then ''('' @ q @ '')'' else q)
                 [''#a AND #b'', ''#blog'']))"
    by blast
  show ?thesis
    unfolding r1 r2 str_includes_iff [symmetric] by simp
qed

lemma sequence_Inl_member: "sequence rs = Inl e \<Longrightarrow> Inl e \<in> set rs"
  by (induction rs rule: sequence.induct) (auto split: sum.splits)

lemma explicit_error_only:
  "buildSearchQuery h = Inl (ErrorObj m)
     \<Longrightarrow> m = ''NOT operator requires a query object, not a simple value''"
proof (induction h rule: buildSearchQuery.induct)
  case (1 es)
  let ?A = "obj_has es ''AND'' \<and> is_array (obj_get es ''AND'')"
  let ?O = "obj_has es ''OR'' \<and> is_array (obj_get es ''OR'')"
  let ?N = "obj_has es ''NOT'' \<and> obj_get es ''NOT'' \<noteq> JUndefined"
  let ?V = "is_object (obj_get es ''NOT'') \<and> \<not> js_in ''value'' (obj_get es ''NOT'')"
  consider (a) ?A | (o) "\<not> ?A" ?O | (n) "\<not> ?A" "\<not> ?O" ?N ?V
    | (e) "\<not> ?A" "\<not> ?O" ?N "\<not> ?V" | (l) "\<not> ?A" "\<not> ?O" "\<not> ?N"
    by blast
  then show ?case
  proof cases
    case a
    with "1.prems" have "sequence (map buildSearchQuery (elems (obj_get es ''AND''))) = Inl (ErrorObj m)"
      by (simp split: sum.splits)
    then obtain x where "x \<in> set (elems (obj_get es ''AND''))" "buildSearchQuery x = Inl (ErrorObj m)"
      by (auto dest!: sequence_Inl_member)
    with "1.IH"(1) [OF a] show ?thesis by blast
  next
    case o
    with "1.prems" have "sequence (map buildSearchQuery (elems (obj_get es ''OR''))) = Inl (ErrorObj m)"
      by (simp split: sum.splits)
    then obtain x where "x \<in> set (elems (obj_get es ''OR''))" "buildSearchQuery x = Inl (ErrorObj m)"
      by (auto dest!: sequence_Inl_member)
    with "1.IH"(2) [OF o] show ?thesis by blast
  next
    case n
    with "1.prems" have "buildSearchQuery (obj_get es ''NOT'') = Inl (ErrorObj m)"
      by (simp split: sum.splits)
    with "1.IH"(3) [OF n] show ?thesis by blast
  next
    case e
    with "1.prems" show ?thesis by (simp add: not_error_def)
  next
    case l
    with "1.prems" show ?thesis by simp
  qed
qed simp_all

text \<open>
  Claim C3. The builder comes to the \<^verbatim>\<open>NOT\<close> key of a node when the node has neither an
  \<^verbatim>\<open>AND\<close> array nor an \<^verbatim>\<open>OR\<close> array (a combinator node bears one combinator, and these
  two are looked at first) and the \<^verbatim>\<open>NOT\<close> value is not \<^verbatim>\<open>undefined\<close>. For every such
  node: when the \<^verbatim>\<open>NOT\<close> value is an object without a top-level \<^verbatim>\<open>value\<close> field, the
  builder builds it and returns \<^verbatim>\<open>not(<inner>)\<close> (a failure of the inner build is passed
  on); otherwise, so for a bare \<^verbatim>\<open>{value, operator}\<close> leaf and for any value that is not
  an object, it throws an \<^verbatim>\<open>Error\<close> with the message
  \<^verbatim>\<open>NOT operator requires a query object, not a simple value\<close>. No other \<^verbatim>\<open>Error\<close> is ever
  thrown by the builder.
\<close>

theorem not_node:
  assumes "\<not> is_array (obj_get es ''AND'')"
      and "\<not> is_array (obj_get es ''OR'')"
      and "obj_get es ''NOT'' \<noteq> JUndefined"
  shows "(is_object (obj_get es ''NOT'') \<and> \<not> js_in ''value'' (obj_get es ''NOT'') \<longrightarrow>
            buildSearchQuery (JObj es) =
              (case buildSearchQuery (obj_get es ''NOT'') of
                 Inl e \<Rightarrow> Inl e
               | Inr inner \<Rightarrow> Inr (''not('' @ inner @ '')'')))
       \<and> (\<not> is_object (obj_get es ''NOT'') \<or> js_in ''value'' (obj_get es ''NOT'') \<longrightarrow>
            buildSearchQuery (JObj es) =
              Inl (ErrorObj ''NOT operator requires a query object, not a simple value''))
       \<and> (\<forall>h m. buildSearchQuery h = Inl (ErrorObj m) \<longrightarrow>
            m = ''NOT operator requires a query object, not a simple value'')"
proof -
  from assms(3) have "obj_has es ''NOT''"
    by (cases "map_of es ''NOT''") (auto simp: obj_get_def obj_has_def)
  with assms show ?thesis
    by (auto simp: not_error_def dest: explicit_error_only)
qed

theorem not_node_witness:
  "buildSearchQuery (JObj not_archived) = Inr ''not(#archived)''
   \<and> buildSearchQuery (JObj not_bare_value)
       = Inl (ErrorObj ''NOT operator requires a query object, not a simple value'')"
proof -
  have a: "\<not> is_array (obj_get not_archived ''AND'')" "\<not> is_array (obj_get not_archived ''OR'')"
    "obj_get not_archived ''NOT'' \<noteq> JUndefined"
    "is_object (obj_get not_archived ''NOT'') \<and> \<not> js_in ''value'' (obj_get not_archived ''NOT'')"
    by (simp_all add: not_archived_def obj_get_def obj_has_def)
  have inner: "buildSearchQuery (obj_get not_archived ''NOT'') = Inr ''#archived''"
    by code_simp
  have b: "\<not> is_array (obj_get not_bare_value ''AND'')" "\<not> is_array (obj_get not_bare_value ''OR'')"
    "obj_get not_bare_value ''NOT'' \<noteq> JUndefined"
    "\<not> is_object (obj_get not_bare_value ''NOT'') \<or> js_in ''value'' (obj_get not_bare_value ''NOT'')"
    by (simp_all add: not_bare_value_def obj_get_def obj_has_def)
  from not_node [OF a(1-3)] a(4) inner
  have "buildSearchQuery (JObj not_archived) = Inr ''not(#archived)''"
    by simp
  moreover from not_node [OF b(1-3)] b(4)
  have "buildSearchQuery (JObj not_bare_value)
       = Inl (ErrorObj ''NOT operator requires a query object, not a simple value'')"
    by blast
  ultimately show ?thesis by simp
qed


section \<open>The query builder: leaf maps\<close>

text \<open>
  A node with no \<^verbatim>\<open>AND\<close> array, no \<^verbatim>\<open>OR\<close> array and no \<^verbatim>\<open>NOT\<close> is a leaf map: its
  entries are rendered in their order, those with the value \<^verbatim>\<open>undefined\<close> or \<^verbatim>\<open>null\<close> are
  skipped, and the clauses are joined with \<^verbatim>\<open>" AND "\<close>. An entry gives one clause, except
  an undotted relation key whose value is neither a string nor an object with a
  \<^verbatim>\<open>value\<close> field: it gives none.
\<close>

lemma leaf_map_build:
  assumes "\<not> is_array (obj_get es ''AND'')"
      and "\<not> is_array (obj_get es ''OR'')"
      and "obj_get es ''NOT'' = JUndefined"
  shows "buildSearchQuery (JObj es) =
           Inr (join '' AND ''
                 (concat (map (\<lambda>(key, v). if v = JUndefined \<or> v = JNull then []
                                           else entry_parts key v) es)))"
  using assms by (simp add: conditions_loop_concat)

lemma entry_parts_one:
  "length (entry_parts key v) =
     (if startsWith key ''~'' \<and> CHR ''.'' \<notin> set (drop 1 key)
         \<and> \<not> is_condition_value v \<and> \<not> is_string v
      then 0 else 1)"
  by (cases key) (auto simp: entry_parts_def nested_parts_def str_includes_char Let_def)

text \<open>
  Claim C6 says that a leaf map renders one clause for every entry whose value is neither
  \<^verbatim>\<open>undefined\<close> nor \<^verbatim>\<open>null\<close>. The branch for an undotted relation key has no final
  \<^verbatim>\<open>else\<close>, unlike the branches for labels, dotted relations and note properties: the
  entry \<^verbatim>\<open>'~author': 5\<close> is dropped and only the label is rendered.
\<close>

theorem simple_relation_number_dropped:
  "buildSearchQuery (JObj [(''#blog'', JBool True), (''~author'', JNum 5)]) = Inr ''#blog''"
  by code_simp

text \<open>
  Claim C2 as stated gives every relation key the default operator \<^verbatim>\<open>*=*\<close>. A dotted
  relation key with a plain string is rendered with \<^verbatim>\<open>=\<close>.
\<close>

theorem dotted_relation_default:
  "buildSearchQuery (JObj [(''~author.title'', JStr ''John Doe'')])
     = Inr (''~author.title = '' @ quoted ''John Doe'')
   \<and> buildSearchQuery (JObj [(''~author.title'', JStr ''John Doe'')])
     \<noteq> Inr (''~author.title *=* '' @ quoted ''John Doe'')"
proof -
  have "buildSearchQuery (JObj [(''~author.title'', JStr ''John Doe'')])
     = Inr (''~author.title = '' @ quoted ''John Doe'')"
    by code_simp
  then show ?thesis by simp
qed

text \<open>
  Claim C2, amended. For a relation key (one that starts with \<^verbatim>\<open>~\<close>) the whole key is the
  left-hand side. When no operator is given, an undotted relation name defaults to
  \<^verbatim>\<open>*=*\<close> and a dotted one to \<^verbatim>\<open>=\<close>: a plain string renders as \<^verbatim>\<open>~name *=* 'value'\<close>,
  respectively \<^verbatim>\<open>~a.b = 'value'\<close>, and a \<^verbatim>\<open>{value}\<close> pair without operator likewise, its
  value quoted when it is a string. A given operator is used as it is.
\<close>

theorem relation_default_operator:
  assumes "startsWith key ''~''"
  shows "buildSearchQuery (JObj [(key, JStr s)]) =
           Inr (key @ (if CHR ''.'' \<in> set (drop 1 key) then '' = '' else '' *=* '') @ quoted s)
       \<and> (obj_has cv ''value'' \<and> \<not> js_truthy (obj_get cv ''operator'') \<longrightarrow>
           buildSearchQuery (JObj [(key, JObj cv)]) =
             Inr (key @ (if CHR ''.'' \<in> set (drop 1 key) then '' = '' else '' *=* '')
                  @ js_to_string (case obj_get cv ''value'' of
                                    JStr t \<Rightarrow> JStr (quoted t)
                                  | w \<Rightarrow> w)))
       \<and> (obj_has cv ''value'' \<and> obj_get cv ''operator'' = JStr op \<and> op \<noteq> [] \<longrightarrow>
           buildSearchQuery (JObj [(key, JObj cv)]) =
             Inr (key @ '' '' @ op @ '' ''
                  @ js_to_string (case obj_get cv ''value'' of
                                    JStr t \<Rightarrow> JStr (quoted t)
                                  | w \<Rightarrow> w)))"
proof -
  from assms obtain t where key: "key = CHR ''~'' # t"
    by (auto simp: startsWith_iff)
  have leaf: "buildSearchQuery (JObj [(key, v)]) = Inr (join '' AND '' (entry_parts key v))"
    if "v \<noteq> JUndefined" "v \<noteq> JNull" for v
    using that by (simp add: key obj_has_def obj_get_def)
  have str: "entry_parts key (JStr s) =
      [key @ (if CHR ''.'' \<in> set (drop 1 key) then '' = '' else '' *=* '') @ quoted s]"
    by (simp add: key entry_parts_def nested_parts_def str_includes_char
        is_condition_value_def)
  have dflt: "entry_parts key (JObj cv) =
      [key @ (if CHR ''.'' \<in> set (drop 1 key) then '' = '' else '' *=* '')
           @ js_to_string (case obj_get cv ''value'' of JStr t \<Rightarrow> JStr (quoted t) | w \<Rightarrow> w)]"
    if "obj_has cv ''value''" "\<not> js_truthy (obj_get cv ''operator'')"
    using that
    by (simp add: key entry_parts_def nested_parts_def str_includes_char
        is_condition_value_def operator_clause_def)
  have given: "entry_parts key (JObj cv) =
      [key @ '' '' @ op @ '' ''
           @ js_to_string (case obj_get cv ''value'' of JStr t \<Rightarrow> JStr (quoted t) | w \<Rightarrow> w)]"
    if "obj_has cv ''value''" "obj_get cv ''operator'' = JStr op" "op \<noteq> []"
    using that
    by (simp add: key entry_parts_def nested_parts_def str_includes_char
        is_condition_value_def operator_clause_def)
  show ?thesis
    using str dflt given by (simp add: leaf del: buildSearchQuery.simps)
qed

theorem relation_default_operator_witness:
  "buildSearchQuery (JObj [(''~author'', JStr ''John'')]) = Inr (''~author *=* '' @ quoted ''John'')
   \<and> buildSearchQuery (JObj [(''~author.title'', JStr ''John'')])
       = Inr (''~author.title = '' @ quoted ''John'')
   \<and> buildSearchQuery (JObj [(''~category'', JObj [(''value'', JStr ''Tech'')])])
       = Inr (''~category *=* '' @ quoted ''Tech'')
   \<and> buildSearchQuery
         (JObj [(''~category'', JObj [(''value'', JStr ''Tech''), (''operator'', JStr ''='')])])
       = Inr (''~category = '' @ quoted ''Tech'')"
proof -
  have a: "startsWith ''~author'' ''~''" "startsWith ''~author.title'' ''~''"
    "startsWith ''~category'' ''~''"
    by simp_all
  have b: "obj_has [(''value'', JStr ''Tech'')] ''value''
           \<and> \<not> js_truthy (obj_get [(''value'', JStr ''Tech'')] ''operator'')"
    by (simp add: obj_has_def obj_get_def)
  have c: "obj_has [(''value'', JStr ''Tech''), (''operator'', JStr ''='')] ''value''
           \<and> obj_get [(''value'', JStr ''Tech''), (''operator'', JStr ''='')] ''operator'' = JStr ''=''
           \<and> ''='' \<noteq> []"
    by (simp add: obj_has_def obj_get_def)
  from relation_default_operator [OF a(1), of "''John''"]
  have 1: "buildSearchQuery (JObj [(''~author'', JStr ''John'')])
             = Inr (''~author *=* '' @ quoted ''John'')"
    by simp
  from relation_default_operator [OF a(2), of "''John''"]
  have 2: "buildSearchQuery (JObj [(''~author.title'', JStr ''John'')])
             = Inr (''~author.title = '' @ quoted ''John'')"
    by simp
  from relation_default_operator [OF a(3), of _ "[(''value'', JStr ''Tech'')]"] b
  have 3: "buildSearchQuery (JObj [(''~category'', JObj [(''value'', JStr ''Tech'')])])
             = Inr (''~category *=* '' @ quoted ''Tech'')"
    by (simp add: obj_get_def del: buildSearchQuery.simps)
  from relation_default_operator [OF a(3), of _
      "[(''value'', JStr ''Tech''), (''operator'', JStr ''='')]" "''=''"] c
  have 4: "buildSearchQuery
         (JObj [(''~category'', JObj [(''value'', JStr ''Tech''), (''operator'', JStr ''='')])])
       = Inr (''~category = '' @ quoted ''Tech'')"
    by (simp add: obj_get_def del: buildSearchQuery.simps)
  from 1 2 3 4 show ?thesis by (simp del: buildSearchQuery.simps)
qed


section \<open>The mapper: required fields\<close>







section \<open>The mapper: two passes\<close>

lemma first_pass_split:
  "first_pass config n result cfs =
     (case first_pass (regular_fields config) n result cfs0 of
        Inl e \<Rightarrow> Inl e
      | Inr (r, c) \<Rightarrow> Inr (r, cfs @ computed_fields config))"
  by (induction config n result cfs rule: first_pass.induct)
    (auto simp: regular_fields_def split: sum.splits)

lemma computed_fields_regular: "computed_fields (regular_fields config) = []"
  by (induction config rule: computed_fields.induct) (auto simp: regular_fields_def)

lemma regular_fields_idem: "regular_fields (regular_fields config) = regular_fields config"
  by (simp add: regular_fields_def)

lemma first_pass_cfs:
  "first_pass config n result cfs = Inr (r1, c) \<Longrightarrow> c = cfs @ computed_fields config"
  by (induction config n result cfs rule: first_pass.induct)
    (auto split: sum.splits if_splits)

lemma first_pass_regular:
  assumes "first_pass config n result cfs = Inr (r1, c)"
  shows "first_pass (regular_fields config) n result [] = Inr (r1, [])
         \<and> c = cfs @ computed_fields config"
proof -
  have eq: "first_pass config n result cfs =
     (case first_pass (regular_fields config) n result [] of
        Inl e \<Rightarrow> Inl e
      | Inr (r, c) \<Rightarrow> Inr (r, cfs @ computed_fields config))"
    by (rule first_pass_split)
  obtain c' where r: "first_pass (regular_fields config) n result [] = Inr (r1, c')"
  proof (cases "first_pass (regular_fields config) n result []")
    case (Inl e)
    with eq assms show ?thesis by simp
  next
    case (Inr st)
    with eq assms have "fst st = r1" by (cases st) simp
    with Inr that show ?thesis by (cases st) simp
  qed
  from first_pass_cfs [OF r] have "c' = []"
    by (simp add: computed_fields_regular)
  with r first_pass_cfs [OF assms] show ?thesis by simp
qed

lemma first_pass_keys:
  "first_pass config n result cfs = Inr (r1, c)
     \<Longrightarrow> fst ` set r1 \<subseteq> fst ` set result \<union> fst ` set (regular_fields config)"
proof (induction config n result cfs rule: first_pass.induct)
  case (1 n result computedFields)
  then show ?case by auto
next
  case (2 key rest n result computedFields)
  then show ?case by (auto simp: regular_fields_def)
next
  case (3 key c d rest n result computedFields)
  then show ?case by (auto simp: regular_fields_def)
next
  case (4 key path rest n result computedFields)
  show ?case
  proof (cases "path = []")
    case True
    with 4 show ?thesis by (auto simp: regular_fields_def)
  next
    case False
    with "4.prems" obtain v where
      v: "direct_value key (FromPath path) None JUndefined False n = Inr v"
      and rest: "first_pass rest n (AList.update key v result) computedFields = Inr (r1, c)"
      by (auto split: sum.splits)
    from "4.IH"(2) [OF False v rest]
    show ?thesis by (auto simp: regular_fields_def dom_update)
  qed
next
  case (5 key src transform d required rest n result computedFields)
  from "5.prems" obtain v where
    v: "direct_value key src transform d required n = Inr v"
    and rest: "first_pass rest n (AList.update key v result) computedFields = Inr (r1, c)"
    by (auto split: sum.splits)
  from "5.IH" [OF v rest]
  show ?case by (auto simp: regular_fields_def dom_update)
qed

lemma computed_keys:
  "fst ` set (computed_fields config) \<subseteq> fst ` set config"
  by (induction config rule: computed_fields.induct) auto

lemma computed_keys_distinct:
  "distinct (map fst config) \<Longrightarrow> distinct (map fst (computed_fields config))"
proof (induction config rule: computed_fields.induct)
  case 1
  then show ?case by simp
next
  case (2 key c d rest)
  with computed_keys [of rest] show ?case by auto
qed auto

lemma computed_keys_filter:
  "fst ` set (computed_fields config) = fst ` set (filter (\<lambda>(key, m). is_computed m) config)"
  by (induction config rule: computed_fields.induct) auto

lemma filter_keys_disjoint:
  "distinct (map fst xs) \<Longrightarrow> k \<in> fst ` set (filter P xs) \<Longrightarrow> k \<notin> fst ` set (filter (\<lambda>x. \<not> P x) xs)"
proof
  assume d: "distinct (map fst xs)" and p: "k \<in> fst ` set (filter P xs)"
    and q: "k \<in> fst ` set (filter (\<lambda>x. \<not> P x) xs)"
  from p obtain b where b: "(k, b) \<in> set xs" "P (k, b)" by auto
  from q obtain b' where b': "(k, b') \<in> set xs" "\<not> P (k, b')" by auto
  from d b(1) have "map_of xs k = Some b" by (rule map_of_is_SomeI)
  moreover from d b'(1) have "map_of xs k = Some b'" by (rule map_of_is_SomeI)
  ultimately have "b = b'" by simp
  with b(2) b'(2) show False by simp
qed

lemma computed_not_regular:
  assumes "distinct (map fst config)"
      and "k \<in> fst ` set (computed_fields config)"
  shows "k \<notin> fst ` set (regular_fields config)"
proof -
  have "regular_fields config = filter (\<lambda>x. \<not> (case x of (key, m) \<Rightarrow> is_computed m)) config"
    by (simp add: regular_fields_def case_prod_unfold)
  with filter_keys_disjoint [OF assms(1), of k "\<lambda>(key, m). is_computed m"] assms(2)
  show ?thesis by (simp add: computed_keys_filter)
qed

lemma obj_get_absent: "k \<notin> fst ` set es \<Longrightarrow> obj_get es k = JUndefined"
  by (simp add: obj_get_def map_of_eq_None_iff [THEN iffD2])

lemma obj_get_update: "obj_get (AList.update k v es) k' = (if k' = k then v else obj_get es k')"
  by (simp add: obj_get_def update_conv')

lemma second_pass_append:
  "second_pass (pre @ rest) n result =
     (case second_pass pre n result of
        Inl e \<Rightarrow> Inl e
      | Inr r \<Rightarrow> second_pass rest n r)"
  by (induction pre n result rule: second_pass.induct) (auto split: sum.splits)

lemma second_pass_other:
  "second_pass pre n r1 = Inr r \<Longrightarrow> k \<notin> fst ` set pre \<Longrightarrow> obj_get r k = obj_get r1 k"
proof (induction pre n r1 rule: second_pass.induct)
  case (1 n result)
  then show ?case by simp
next
  case (2 key c d rest n result)
  from "2.prems"(1) obtain v where v: "c result n = Inr v"
    and rest: "second_pass rest n (AList.update key (with_default v d) result) = Inr r"
    by (auto split: sum.splits)
  from "2.prems"(2) have "k \<noteq> key" "k \<notin> fst ` set rest" by auto
  with "2.IH" [OF v rest] show ?case by (simp add: obj_get_update)
qed

lemma second_pass_earlier:
  assumes "second_pass (p1 @ (k', c', d') # p2) n r1 = Inr r"
      and "k' \<notin> fst ` set p2"
  shows "\<exists>r' v'. second_pass p1 n r1 = Inr r' \<and> c' r' n = Inr v' \<and> obj_get r k' = with_default v' d'"
proof -
  from assms(1) obtain r' where r': "second_pass p1 n r1 = Inr r'"
    and step: "second_pass ((k', c', d') # p2) n r' = Inr r"
    by (auto simp: second_pass_append split: sum.splits)
  from step obtain v' where v': "c' r' n = Inr v'"
    and rest: "second_pass p2 n (AList.update k' (with_default v' d') r') = Inr r"
    by (auto split: sum.splits)
  from second_pass_other [OF rest assms(2)] have "obj_get r k' = with_default v' d'"
    by (simp add: obj_get_update)
  with r' v' show ?thesis by blast
qed


text \<open>
  Claim C1 as stated says that a computed function never sees the output of another
  computed field. The second loop stores each output in the one result object that it
  hands to the next computed function: here \<^verbatim>\<open>second\<close> reads the slot of \<^verbatim>\<open>first\<close>, a
  computed field declared before it, and finds 1, not \<^verbatim>\<open>undefined\<close>.
\<close>

theorem computed_sees_earlier_computed:
  "mapSingle chained_config note_first =
     Inr (JObj [(''title'', JStr ''First''), (''first'', JNum 1), (''second'', JNum 1)])
   \<and> mapSingle chained_config note_first \<noteq>
     Inr (JObj [(''title'', JStr ''First''), (''first'', JNum 1), (''second'', JUndefined)])"
proof -
  have "mapSingle chained_config note_first =
     Inr (JObj [(''title'', JStr ''First''), (''first'', JNum 1), (''second'', JNum 1)])"
    by code_simp
  then show ?thesis by simp
qed

text \<open>
  Claim C1, amended. For every configuration (an object, so with distinct keys) and every
  note for which the first pass completes: the first pass gives the result of the regular
  fields alone, wherever the computed fields are declared, and every computed function
  runs after it, in declaration order, on the one accumulating result. When the computed
  fields before it have been resolved, a computed function is called with a partial
  result in which every regular field has its value of pass 1, every computed field
  declared before it has its resolved output, and its own slot and the slots of the
  computed fields declared after it are \<^verbatim>\<open>undefined\<close>. The values of pass 1 are final:
  the mapped object has them.
\<close>

theorem computed_after_direct:
  assumes "distinct (map fst config)"
      and "first_pass config n [] [] = Inr (r1, cfs)"
      and "computed_fields config = pre @ (key, c, d) # post"
      and "second_pass pre n r1 = Inr r"
  shows "first_pass (regular_fields config) n [] [] = Inr (r1, [])
       \<and> mapSingle config n =
           (case c r n of
              Inl e \<Rightarrow> Inl e
            | Inr v \<Rightarrow>
                (case second_pass post n (AList.update key (with_default v d) r) of
                   Inl e \<Rightarrow> Inl e
                 | Inr result \<Rightarrow> Inr (JObj result)))
       \<and> (\<forall>k. k \<notin> fst ` set pre \<longrightarrow> obj_get r k = obj_get r1 k)
       \<and> obj_get r key = JUndefined
       \<and> (\<forall>k\<in>fst ` set post. obj_get r k = JUndefined)
       \<and> (\<forall>p1 k' c' d' p2. pre = p1 @ (k', c', d') # p2 \<longrightarrow>
            (\<exists>r' v'. second_pass p1 n r1 = Inr r' \<and> c' r' n = Inr v'
                     \<and> obj_get r k' = with_default v' d'))
       \<and> (\<forall>result k. mapSingle config n = Inr (JObj result)
                       \<and> k \<notin> fst ` set (computed_fields config) \<longrightarrow>
            obj_get result k = obj_get r1 k)"
proof -
  from first_pass_regular [OF assms(2)]
  have reg: "first_pass (regular_fields config) n [] [] = Inr (r1, [])"
    and cfs: "cfs = computed_fields config"
    by simp_all
  have dist: "distinct (map fst (pre @ (key, c, d) # post))"
    using computed_keys_distinct [OF assms(1)] by (simp add: assms(3))
  have keys1: "fst ` set r1 \<subseteq> fst ` set (regular_fields config)"
    using first_pass_keys [OF assms(2)] by simp
  have undef1: "obj_get r1 k = JUndefined" if "k \<in> fst ` set (computed_fields config)" for k
    using computed_not_regular [OF assms(1) that] keys1 by (auto intro: obj_get_absent)
  have other: "obj_get r k = obj_get r1 k" if "k \<notin> fst ` set pre" for k
    using second_pass_other [OF assms(4) that] .
  have run: "second_pass (computed_fields config) n r1 =
               (case c r n of
                  Inl e \<Rightarrow> Inl e
                | Inr v \<Rightarrow> second_pass post n (AList.update key (with_default v d) r))"
    by (simp add: assms(3) second_pass_append assms(4))
  have m: "mapSingle config n =
           (case c r n of
              Inl e \<Rightarrow> Inl e
            | Inr v \<Rightarrow>
                (case second_pass post n (AList.update key (with_default v d) r) of
                   Inl e \<Rightarrow> Inl e
                 | Inr result \<Rightarrow> Inr (JObj result)))"
    by (simp add: mapSingle_def assms(2) cfs run split: sum.splits)
  have own: "obj_get r key = JUndefined"
  proof -
    from dist have "key \<notin> fst ` set pre" by auto
    then have "obj_get r key = obj_get r1 key" by (rule other)
    also have "\<dots> = JUndefined" by (rule undef1) (simp add: assms(3))
    finally show ?thesis .
  qed
  have later: "obj_get r k = JUndefined" if "k \<in> fst ` set post" for k
  proof -
    from dist that have "k \<notin> fst ` set pre" by auto
    then have "obj_get r k = obj_get r1 k" by (rule other)
    also have "\<dots> = JUndefined" using that by (intro undef1) (auto simp: assms(3))
    finally show ?thesis .
  qed
  have earlier: "\<exists>r' v'. second_pass p1 n r1 = Inr r' \<and> c' r' n = Inr v'
                     \<and> obj_get r k' = with_default v' d'"
    if "pre = p1 @ (k', c', d') # p2" for p1 k' c' d' p2
  proof -
    from dist that have notin: "k' \<notin> fst ` set p2" by auto
    from assms(4) that have "second_pass (p1 @ (k', c', d') # p2) n r1 = Inr r" by simp
    from second_pass_earlier [OF this notin] show ?thesis .
  qed
  have final: "obj_get result k = obj_get r1 k"
    if "mapSingle config n = Inr (JObj result) \<and> k \<notin> fst ` set (computed_fields config)"
    for result k
  proof -
    from that have "second_pass (computed_fields config) n r1 = Inr result"
      by (auto simp: mapSingle_def assms(2) cfs split: sum.splits)
    with that show ?thesis by (auto intro: second_pass_other)
  qed
  from reg m other own later earlier final show ?thesis by blast
qed

theorem computed_after_direct_witness:
  "mapSingle chained_config note_first =
     Inr (JObj [(''title'', JStr ''First''), (''first'', JNum 1), (''second'', JNum 1)])
   \<and> obj_get [(''title'', JStr ''First''), (''first'', JNum 1)] ''second'' = JUndefined
   \<and> obj_get [(''title'', JStr ''First''), (''first'', JNum 1)] ''title'' = JStr ''First''"
proof -
  have h1: "distinct (map fst chained_config)"
    by (simp add: chained_config_def)
  have "direct_value ''title'' (FromPath ''note.title'') None JUndefined False note_first
          = Inr (JStr ''First'')"
    by code_simp
  then have h2: "first_pass chained_config note_first [] [] =
      Inr ([(''title'', JStr ''First'')],
           [(''first'', constant_one, JUndefined), (''second'', read_first, JUndefined)])"
    by (simp add: chained_config_def)
  have h3: "computed_fields chained_config =
      [(''first'', constant_one, JUndefined)] @ (''second'', read_first, JUndefined) # []"
    by (simp add: chained_config_def)
  have h4: "second_pass [(''first'', constant_one, JUndefined)] note_first
              [(''title'', JStr ''First'')]
            = Inr [(''title'', JStr ''First''), (''first'', JNum 1)]"
    by (simp add: constant_one_def with_default_def)
  note t = computed_after_direct [OF h1 h2 h3 h4]
  from t have "mapSingle chained_config note_first =
           (case read_first [(''title'', JStr ''First''), (''first'', JNum 1)] note_first of
              Inl e \<Rightarrow> Inl e
            | Inr v \<Rightarrow>
                (case second_pass [] note_first
                        (AList.update ''second'' (with_default v JUndefined)
                           [(''title'', JStr ''First''), (''first'', JNum 1)]) of
                   Inl e \<Rightarrow> Inl e
                 | Inr result \<Rightarrow> Inr (JObj result)))"
    by blast
  then have a: "mapSingle chained_config note_first =
     Inr (JObj [(''title'', JStr ''First''), (''first'', JNum 1), (''second'', JNum 1)])"
    by (simp add: read_first_def obj_get_def with_default_def)
  from t have b: "obj_get [(''title'', JStr ''First''), (''first'', JNum 1)] ''second'' = JUndefined"
    by blast
  have "''title'' \<notin> fst ` set [(''first'', constant_one, JUndefined)]" by simp
  with t have "obj_get [(''title'', JStr ''First''), (''first'', JNum 1)] ''title''
                 = obj_get [(''title'', JStr ''First'')] ''title''"
    by blast
  then have c: "obj_get [(''title'', JStr ''First''), (''first'', JNum 1)] ''title'' = JStr ''First''"
    by (simp add: obj_get_def)
  from a b c show ?thesis by blast
qed


end
